theory Spec2Isabelle
  imports Main
begin

section \<open>Arguments of a memoized function\<close>

text \<open>
  \<^verbatim>\<open>SimpleArgs = (string | number | boolean | undefined)[]\<close>: an argument is a string,
  a number, a boolean or \<^verbatim>\<open>undefined\<close>; \<^verbatim>\<open>null\<close> and objects are excluded by the type.
  The numbers of the model are the integers, printed in decimal: so ECMAScript prints the
  integers a \<^verbatim>\<open>number\<close> holds exactly, those of magnitude up to \<open>2^53\<close>. Fractions,
  larger magnitudes, \<^verbatim>\<open>NaN\<close> and the infinities are outside the model.
\<close>

datatype arg = Str string | Num int | Bool bool | Undefined

fun typeof_arg :: "arg \<Rightarrow> string" where
  "typeof_arg (Str s) = ''string''"
| "typeof_arg (Num n) = ''number''"
| "typeof_arg (Bool b) = ''boolean''"
| "typeof_arg Undefined = ''undefined''"

fun nat_text :: "nat \<Rightarrow> string" where
  "nat_text n =
     (if n < 10 then [''0123456789'' ! n]
      else nat_text (n div 10) @ [''0123456789'' ! (n mod 10)])"

declare nat_text.simps [simp del]

definition number_text :: "int \<Rightarrow> string" where
  "number_text i = (if i < 0 then CHR ''-'' # nat_text (nat (- i)) else nat_text (nat i))"

text \<open>The text a template literal \<^verbatim>\<open>`${arg}`\<close> produces for an argument.\<close>

fun to_string :: "arg \<Rightarrow> string" where
  "to_string (Str s) = s"
| "to_string (Num n) = number_text n"
| "to_string (Bool b) = (if b then ''true'' else ''false'')"
| "to_string Undefined = ''undefined''"

section \<open>The key encoder\<close>

text \<open>
  \<^verbatim>\<open>args.reduce((cacheKey, arg) =>
       (cacheKey += `_${typeof arg === 'object' ? JSON.stringify(args) : `${arg}`}_`), '')\<close>

  \<^verbatim>\<open>JSON.stringify\<close> belongs to the host; it is the parameter \<open>J\<close>. No value of
  \<^typ>\<open>arg\<close> has type \<^verbatim>\<open>'object'\<close>, so that branch is never taken
  (lemma \<open>typeof_arg_not_object\<close>).
\<close>

definition createCacheKeyFromArgs :: "(arg list \<Rightarrow> string) \<Rightarrow> arg list \<Rightarrow> string" where
  "createCacheKeyFromArgs J args =
     foldl (\<lambda>cacheKey a.
              cacheKey @ ''_'' @ (if typeof_arg a = ''object'' then J args else to_string a) @ ''_'')
           [] args"

section \<open>The cache store\<close>

text \<open>
  \<^verbatim>\<open>new Map<..., Promise<...>>()\<close>: an ECMAScript \<^verbatim>\<open>Map\<close> iterates in the order of first
  insertion, so the store is an association list in that order. \<^verbatim>\<open>set\<close> on a key already
  present replaces the value where it stands; on a new key it appends.
\<close>

type_synonym 'h store = "(string \<times> 'h) list"

fun map_get :: "string \<Rightarrow> 'h store \<Rightarrow> 'h option" where
  "map_get k [] = None"
| "map_get k (p # m) = (if fst p = k then Some (snd p) else map_get k m)"

fun map_set :: "string \<Rightarrow> 'h \<Rightarrow> 'h store \<Rightarrow> 'h store" where
  "map_set k v [] = [(k, v)]"
| "map_set k v (p # m) = (if fst p = k then (k, v) # m else p # map_set k v m)"

definition map_delete :: "string \<Rightarrow> 'h store \<Rightarrow> 'h store" where
  "map_delete k m = filter (\<lambda>p. fst p \<noteq> k) m"

definition map_keys :: "'h store \<Rightarrow> string list" where
  "map_keys m = map fst m"

definition map_size :: "'h store \<Rightarrow> nat" where
  "map_size m = length m"

section \<open>Promises, timers and the state of one memoized function\<close>

text \<open>
  A promise is a handle of type \<open>'h\<close>; what it has settled to is kept by the host.
  A promise settles once.
\<close>

datatype 'v outcome = Pending | Fulfilled 'v | Rejected 'v

text \<open>
  The state: the \<^verbatim>\<open>cache\<close> of the closure, the host's pending timers (time due in
  milliseconds and the key the callback closes over, in the order they were armed), the
  host's clock in milliseconds, the argument tuples \<^verbatim>\<open>f\<close> has been invoked with, oldest
  first, and the outcome of every promise.
\<close>

record ('h, 'v) state =
  cache :: "'h store"
  timers :: "(nat \<times> string) list"
  now :: nat
  invoked :: "arg list list"
  outcome :: "'h \<Rightarrow> 'v outcome"

text \<open>
  \<^verbatim>\<open>options: { ttl: number; size: number }\<close>, with \<^verbatim>\<open>ttl\<close> a whole number of seconds;
  a fractional \<^verbatim>\<open>ttl\<close> is outside the model.
\<close>

record options =
  ttl :: nat
  size_opt :: int

text \<open>The state \<^verbatim>\<open>memoize_async\<close> starts from: an empty cache, nothing armed, nothing invoked.\<close>

definition memoize_async :: "('h, 'v) state" where
  "memoize_async =
     \<lparr>cache = [], timers = [], now = 0, invoked = [], outcome = (\<lambda>h. Pending)\<rparr>"

section \<open>The memoized function\<close>

text \<open>
  The wrapped function \<^verbatim>\<open>f\<close> is side-effecting: the promise it returns may depend on the
  invocations made so far, so \<open>f\<close> takes them with the arguments. It returns its promise
  without throwing, as an \<^verbatim>\<open>async\<close> function does. A promise is an object and hence
  truthy, so \<^verbatim>\<open>if (cached)\<close> tests that the key is present.

  \<^verbatim>\<open>
  const cacheKey = createCacheKeyFromArgs(args);
  const cached = cache.get(cacheKey);
  if (cached) { return cached; }
  const result = f(...args);
  cache.set(cacheKey, result);
  setTimeout(() => cache.delete(cacheKey), options.ttl * 1000);
  if (cache.size > options.size) {
    const oldest = cache.keys().next().value;
    cache.delete(oldest);
  }
  return result;
  \<close>
  On an empty store \<^verbatim>\<open>cache.keys().next().value\<close> is \<^verbatim>\<open>undefined\<close>, which is no key of the
  store, and \<^verbatim>\<open>delete\<close> removes nothing.
\<close>

text \<open>
  The delay \<^verbatim>\<open>setTimeout\<close> of Node.js waits when asked for \<open>ms\<close> milliseconds: a delay
  below 1 or above \<open>2^31 - 1\<close> becomes 1 millisecond.
\<close>

definition timer_delay :: "nat \<Rightarrow> nat" where
  "timer_delay ms = (if 1 \<le> ms \<and> ms \<le> 2147483647 then ms else 1)"

definition evict_oldest :: "'h store \<Rightarrow> 'h store" where
  "evict_oldest m = (case map_keys m of [] \<Rightarrow> m | oldest # rest \<Rightarrow> map_delete oldest m)"

definition memoized ::
  "(arg list \<Rightarrow> string) \<Rightarrow> options \<Rightarrow> (arg list list \<Rightarrow> arg list \<Rightarrow> 'h) \<Rightarrow>
   arg list \<Rightarrow> ('h, 'v) state \<Rightarrow> 'h \<times> ('h, 'v) state" where
  "memoized J opts f args s =
     (let cacheKey = createCacheKeyFromArgs J args in
      case map_get cacheKey (cache s) of
        Some cached \<Rightarrow> (cached, s)
      | None \<Rightarrow>
          (let result = f (invoked s) args;
               s1 = s\<lparr>invoked := invoked s @ [args]\<rparr>;
               s2 = s1\<lparr>cache := map_set cacheKey result (cache s1)\<rparr>;
               s3 = s2\<lparr>timers := timers s2 @
                         [(now s2 + timer_delay (ttl opts * 1000), cacheKey)]\<rparr>;
               s4 = (if int (map_size (cache s3)) > size_opt opts
                     then s3\<lparr>cache := evict_oldest (cache s3)\<rparr> else s3)
           in (result, s4)))"

text \<open>\<^verbatim>\<open>cache_size: () => cache.size\<close> and \<^verbatim>\<open>clear_cache: () => cache.clear()\<close>.\<close>

definition cache_size :: "('h, 'v) state \<Rightarrow> nat" where
  "cache_size s = map_size (cache s)"

definition clear_cache :: "('h, 'v) state \<Rightarrow> ('h, 'v) state" where
  "clear_cache s = s\<lparr>cache := []\<rparr>"

section \<open>The host: timers firing and promises settling\<close>

text \<open>The timer callback \<^verbatim>\<open>() => cache.delete(cacheKey)\<close>.\<close>

definition expire :: "string \<Rightarrow> ('h, 'v) state \<Rightarrow> ('h, 'v) state" where
  "expire cacheKey s = s\<lparr>cache := map_delete cacheKey (cache s)\<rparr>"

text \<open>
  \<open>d\<close> milliseconds pass: every timer due by then fires, in the order armed, and is
  dropped from the pending ones. No callback arms a timer.
\<close>

definition elapse :: "nat \<Rightarrow> ('h, 'v) state \<Rightarrow> ('h, 'v) state" where
  "elapse d s =
     (let t = now s + d in
      (foldl (\<lambda>s' tm. expire (snd tm) s') s (filter (\<lambda>tm. fst tm \<le> t) (timers s)))
        \<lparr>timers := filter (\<lambda>tm. \<not> fst tm \<le> t) (timers s), now := t\<rparr>)"

text \<open>A pending promise settles; a settled one stays as it is.\<close>

definition settle :: "'h \<Rightarrow> 'v outcome \<Rightarrow> ('h, 'v) state \<Rightarrow> ('h, 'v) state" where
  "settle h out s =
     (if outcome s h = Pending then s\<lparr>outcome := (outcome s)(h := out)\<rparr> else s)"

section \<open>Runs\<close>

text \<open>
  The body of the memoized function has no \<^verbatim>\<open>await\<close>: each call runs to its end before
  anything else does. A run is a sequence of calls of the memoized function, calls of
  \<^verbatim>\<open>clear_cache\<close>, passages of time and settlements of promises.
\<close>

datatype ('h, 'v) event = Call "arg list" | ClearCache | Elapse nat | Settle 'h "'v outcome"

fun step ::
  "(arg list \<Rightarrow> string) \<Rightarrow> options \<Rightarrow> (arg list list \<Rightarrow> arg list \<Rightarrow> 'h) \<Rightarrow>
   ('h, 'v) event \<Rightarrow> ('h, 'v) state \<Rightarrow> ('h, 'v) state" where
  "step J opts f (Call args) s = snd (memoized J opts f args s)"
| "step J opts f ClearCache s = clear_cache s"
| "step J opts f (Elapse d) s = elapse d s"
| "step J opts f (Settle h out) s = settle h out s"

fun run ::
  "(arg list \<Rightarrow> string) \<Rightarrow> options \<Rightarrow> (arg list list \<Rightarrow> arg list \<Rightarrow> 'h) \<Rightarrow>
   ('h, 'v) event list \<Rightarrow> ('h, 'v) state \<Rightarrow> ('h, 'v) state" where
  "run J opts f [] s = s"
| "run J opts f (e # es) s = run J opts f es (step J opts f e s)"

text \<open>What the calls of a run returned, with their arguments, in order.\<close>

fun returned ::
  "(arg list \<Rightarrow> string) \<Rightarrow> options \<Rightarrow> (arg list list \<Rightarrow> arg list \<Rightarrow> 'h) \<Rightarrow>
   ('h, 'v) event list \<Rightarrow> ('h, 'v) state \<Rightarrow> (arg list \<times> 'h) list" where
  "returned J opts f [] s = []"
| "returned J opts f (Call args # es) s =
     (args, fst (memoized J opts f args s)) # returned J opts f es (step J opts f (Call args) s)"
| "returned J opts f (e # es) s = returned J opts f es (step J opts f e s)"

text \<open>
  The entry under key \<open>k\<close> is in the store before and after every event of the run:
  it is neither expired, nor evicted, nor cleared.
\<close>

fun entry_kept ::
  "(arg list \<Rightarrow> string) \<Rightarrow> options \<Rightarrow> (arg list list \<Rightarrow> arg list \<Rightarrow> 'h) \<Rightarrow>
   string \<Rightarrow> ('h, 'v) event list \<Rightarrow> ('h, 'v) state \<Rightarrow> bool" where
  "entry_kept J opts f k [] s = (map_get k (cache s) \<noteq> None)"
| "entry_kept J opts f k (e # es) s =
     (map_get k (cache s) \<noteq> None \<and> entry_kept J opts f k es (step J opts f e s))"

text \<open>
  The event removes the entry under key \<open>k\<close> from the store it meets. Eviction: a call
  misses, the store with the new entry exceeds the maximum, and \<open>k\<close> is the oldest key
  (the call's own key when the store was empty). Clearing: \<^verbatim>\<open>clear_cache\<close>. Expiry: time
  passes and a timer armed for \<open>k\<close> falls due. Lemmas \<open>removes_absent\<close> and
  \<open>not_removes_keeps\<close> show that these and no other events remove an entry.
\<close>

fun removes ::
  "(arg list \<Rightarrow> string) \<Rightarrow> options \<Rightarrow> string \<Rightarrow> ('h, 'v) event \<Rightarrow> ('h, 'v) state \<Rightarrow> bool" where
  "removes J opts k (Call args) s =
     (map_get (createCacheKeyFromArgs J args) (cache s) = None
      \<and> int (map_size (cache s)) + 1 > size_opt opts
      \<and> (case map_keys (cache s) of
            [] \<Rightarrow> createCacheKeyFromArgs J args = k
          | oldest # rest \<Rightarrow> oldest = k))"
| "removes J opts k ClearCache s = True"
| "removes J opts k (Elapse d) s = (\<exists>tm \<in> set (timers s). fst tm \<le> now s + d \<and> snd tm = k)"
| "removes J opts k (Settle h out) s = False"

text \<open>No event of the run removes the entry under key \<open>k\<close>.\<close>

fun undisturbed ::
  "(arg list \<Rightarrow> string) \<Rightarrow> options \<Rightarrow> (arg list list \<Rightarrow> arg list \<Rightarrow> 'h) \<Rightarrow>
   string \<Rightarrow> ('h, 'v) event list \<Rightarrow> ('h, 'v) state \<Rightarrow> bool" where
  "undisturbed J opts f k [] s = True"
| "undisturbed J opts f k (e # es) s =
     (\<not> removes J opts k e s \<and> undisturbed J opts f k es (step J opts f e s))"

text \<open>The invocations of \<^verbatim>\<open>f\<close> whose arguments encode to the key \<open>k\<close>.\<close>

definition invoked_for :: "(arg list \<Rightarrow> string) \<Rightarrow> string \<Rightarrow> arg list list \<Rightarrow> arg list list" where
  "invoked_for J k log = filter (\<lambda>args. createCacheKeyFromArgs J args = k) log"

section \<open>Concrete runs\<close>

text \<open>
  The runs evaluated below pass no object, so \<^verbatim>\<open>JSON.stringify\<close> is never called; they
  take the wrapped function to be an \<^verbatim>\<open>async\<close> function, which returns a new promise at
  every invocation: the \<open>n\<close>-th invocation (counting from 0) returns promise \<open>n\<close>.
\<close>

definition no_objects :: "arg list \<Rightarrow> string" where
  "no_objects args = []"

definition fresh_promise :: "arg list list \<Rightarrow> arg list \<Rightarrow> nat" where
  "fresh_promise log args = length log"

text \<open>\<^verbatim>\<open>memoize_async({ ttl: 60, size: 100 }, ...)\<close>, the example of the documentation.\<close>

definition example_options :: options where
  "example_options = \<lparr>ttl = 60, size_opt = 100\<rparr>"

definition fresh :: "(nat, string) state" where
  "fresh = memoize_async"

text \<open>The state after \<^verbatim>\<open>get_user(2)\<close> was called once, at time 0.\<close>

definition after_first_call :: "(nat, string) state" where
  "after_first_call =
     \<lparr>cache = [(''_2_'', 0)], timers = [(60000, ''_2_'')], now = 0, invoked = [[Num 2]],
      outcome = (\<lambda>h. Pending)\<rparr>"

text \<open>
  The state after \<^verbatim>\<open>get_user(2)\<close> was called once and its promise was rejected.
\<close>

definition failed_state :: "(nat, string) state" where
  "failed_state =
     \<lparr>cache = [(''_2_'', 0)], timers = [(60000, ''_2_'')], now = 0, invoked = [[Num 2]],
      outcome = (\<lambda>h. Pending)(0 := Rejected ''no such user'')\<rparr>"

text \<open>The equations a concrete run is evaluated with.\<close>

lemmas run_simps = memoized_def createCacheKeyFromArgs_def number_text_def
  map_size_def map_keys_def map_delete_def evict_oldest_def clear_cache_def elapse_def
  expire_def settle_def memoize_async_def Let_def cache_size_def invoked_for_def
  timer_delay_def

section \<open>The key encoder: properties\<close>

lemma typeof_arg_not_object: "typeof_arg a \<noteq> ''object''"
  by (cases a) simp_all

lemma foldl_segments:
  "foldl (\<lambda>cacheKey a. cacheKey @ ''_'' @ (if typeof_arg a = ''object'' then X else to_string a) @ ''_'') acc xs
   = acc @ concat (map (\<lambda>a. ''_'' @ to_string a @ ''_'') xs)"
  by (induction xs arbitrary: acc) (simp_all add: typeof_arg_not_object)

lemma createCacheKeyFromArgs_concat:
  "createCacheKeyFromArgs J args = concat (map (\<lambda>a. ''_'' @ to_string a @ ''_'') args)"
  by (simp only: createCacheKeyFromArgs_def foldl_segments append_Nil)

section \<open>The store, one call, one event\<close>

lemma map_get_set: "map_get k (map_set k' v m) = (if k = k' then Some v else map_get k m)"
  by (induction m) auto

lemma map_get_delete: "map_get k (map_delete k' m) = (if k = k' then None else map_get k m)"
  by (induction m) (auto simp: map_delete_def)

lemma map_set_absent: "map_get k m = None \<Longrightarrow> map_set k v m = m @ [(k, v)]"
  by (induction m) (auto split: if_splits)

lemma length_map_delete: "length (map_delete k m) \<le> length m"
  by (simp add: map_delete_def)

lemma map_get_evict_oldest:
  "map_get k (evict_oldest m) = None \<or> map_get k (evict_oldest m) = map_get k m"
  by (cases m) (auto simp: evict_oldest_def map_keys_def map_get_delete)

lemma memoized_hit:
  "map_get (createCacheKeyFromArgs J args) (cache s) = Some h \<Longrightarrow> memoized J opts f args s = (h, s)"
  by (simp add: memoized_def)

lemma memoized_miss:
  "map_get (createCacheKeyFromArgs J args) (cache s) = None \<Longrightarrow>
   memoized J opts f args s =
     (f (invoked s) args,
      s\<lparr>invoked := invoked s @ [args],
        cache := (let m = cache s @ [(createCacheKeyFromArgs J args, f (invoked s) args)]
                  in if int (length m) > size_opt opts then evict_oldest m else m),
        timers := timers s @
                    [(now s + timer_delay (ttl opts * 1000), createCacheKeyFromArgs J args)]\<rparr>)"
  by (simp add: memoized_def map_set_absent map_size_def Let_def)

lemma cache_foldl_expire:
  "map_get k (cache (foldl (\<lambda>s' tm. expire (snd tm) s') s tms)) = None \<or>
   map_get k (cache (foldl (\<lambda>s' tm. expire (snd tm) s') s tms)) = map_get k (cache s)"
proof (induction tms arbitrary: s)
  case Nil
  then show ?case by simp
next
  case (Cons tm tms)
  from Cons.IH [of "expire (snd tm) s"] show ?case
    by (auto simp: expire_def map_get_delete split: if_splits)
qed

lemma invoked_foldl_expire [simp]:
  "invoked (foldl (\<lambda>s' tm. expire (snd tm) s') s tms) = invoked s"
  by (induction tms arbitrary: s) (auto simp: expire_def)

lemma outcome_foldl_expire [simp]:
  "outcome (foldl (\<lambda>s' tm. expire (snd tm) s') s tms) = outcome s"
  by (induction tms arbitrary: s) (auto simp: expire_def)

lemma step_keeps_value:
  assumes "map_get k (cache s) = Some h"
  shows "map_get k (cache (step J opts f e s)) = None \<or> map_get k (cache (step J opts f e s)) = Some h"
proof (cases e)
  case (Call args)
  show ?thesis
  proof (cases "map_get (createCacheKeyFromArgs J args) (cache s)")
    case None
    with assms have ne: "createCacheKeyFromArgs J args \<noteq> k" by auto
    let ?m = "cache s @ [(createCacheKeyFromArgs J args, f (invoked s) args)]"
    have "map_get k ?m = Some h"
      using assms ne None by (simp add: map_set_absent [symmetric] map_get_set)
    with map_get_evict_oldest [of k ?m] show ?thesis
      using Call None by (auto simp: memoized_miss Let_def)
  next
    case (Some h')
    then show ?thesis using Call assms by (simp add: memoized_hit)
  qed
next
  case ClearCache
  then show ?thesis by (simp add: clear_cache_def)
next
  case (Elapse d)
  then show ?thesis
    using assms cache_foldl_expire [of k s "filter (\<lambda>tm. fst tm \<le> now s + d) (timers s)"]
    by (auto simp: elapse_def Let_def)
next
  case (Settle h' out)
  then show ?thesis using assms by (simp add: settle_def)
qed

lemma step_invoked_for:
  assumes "map_get k (cache s) \<noteq> None"
  shows "invoked_for J k (invoked (step J opts f e s)) = invoked_for J k (invoked s)"
proof (cases e)
  case (Call args)
  show ?thesis
  proof (cases "map_get (createCacheKeyFromArgs J args) (cache s)")
    case None
    with assms have "createCacheKeyFromArgs J args \<noteq> k" by auto
    then show ?thesis using Call None by (simp add: memoized_miss invoked_for_def)
  next
    case (Some h')
    then show ?thesis using Call by (simp add: memoized_hit)
  qed
qed (simp_all add: clear_cache_def elapse_def settle_def Let_def)

lemma kept_run:
  assumes "entry_kept J opts f k es s" and "map_get k (cache s) = Some h"
  shows "map_get k (cache (run J opts f es s)) = Some h
       \<and> invoked_for J k (invoked (run J opts f es s)) = invoked_for J k (invoked s)
       \<and> (\<forall>r \<in> set (returned J opts f es s). createCacheKeyFromArgs J (fst r) = k \<longrightarrow> snd r = h)"
  using assms
proof (induction es arbitrary: s)
  case Nil
  then show ?case by simp
next
  case (Cons e es)
  let ?s = "step J opts f e s"
  from Cons.prems have kept: "entry_kept J opts f k es ?s" by simp
  then have "map_get k (cache ?s) \<noteq> None" by (cases es) simp_all
  with step_keeps_value [OF Cons.prems(2), of J opts f e] have v: "map_get k (cache ?s) = Some h" by auto
  note IH = Cons.IH [OF kept v]
  have inv: "invoked_for J k (invoked ?s) = invoked_for J k (invoked s)"
    using Cons.prems(2) by (intro step_invoked_for) simp
  have ret: "\<forall>r \<in> set (returned J opts f (e # es) s). createCacheKeyFromArgs J (fst r) = k \<longrightarrow> snd r = h"
  proof (cases e)
    case (Call args)
    then show ?thesis using IH Cons.prems(2) by (auto simp: memoized_hit)
  qed (use IH in simp_all)
  show ?case using IH inv ret by simp
qed

lemma nat_text_digit: "n < 10 \<Longrightarrow> nat_text n = [''0123456789'' ! n]"
  by (simp add: nat_text.simps)

lemma run_append: "run J opts f (es1 @ es2) s = run J opts f es2 (run J opts f es1 s)"
  by (induction es1 arbitrary: s) simp_all

lemma hits_noop:
  "\<forall>x \<in> set hs. map_get (createCacheKeyFromArgs J x) (cache s) \<noteq> None \<Longrightarrow>
   run J opts f (map Call hs) s = s"
  by (induction hs) (auto simp: memoized_hit)

lemma map_get_append:
  "map_get k (m @ m') = (case map_get k m of None \<Rightarrow> map_get k m' | Some v \<Rightarrow> Some v)"
  by (induction m) auto

lemma memoized_result_cached:
  assumes "memoized J opts f args s = (h, s1)"
  shows "map_get (createCacheKeyFromArgs J args) (cache s1) = None
       \<or> map_get (createCacheKeyFromArgs J args) (cache s1) = Some h"
proof (cases "map_get (createCacheKeyFromArgs J args) (cache s)")
  case None
  let ?k = "createCacheKeyFromArgs J args"
  let ?m = "cache s @ [(?k, f (invoked s) args)]"
  have "map_get ?k ?m = Some (f (invoked s) args)"
    using None by (simp add: map_get_append)
  with map_get_evict_oldest [of ?k ?m] show ?thesis
    using assms None by (auto simp: memoized_miss Let_def split: if_splits)
next
  case (Some h')
  then show ?thesis using assms by (simp add: memoized_hit)
qed

lemma cache_foldl_expire_filter:
  "cache (foldl (\<lambda>s' tm. expire (snd tm) s') s tms) = filter (\<lambda>p. fst p \<notin> snd ` set tms) (cache s)"
proof (induction tms arbitrary: s)
  case Nil
  then show ?case by simp
next
  case (Cons tm tms)
  have "cache (foldl (\<lambda>s' tm. expire (snd tm) s') s (tm # tms))
        = filter (\<lambda>p. fst p \<notin> snd ` set tms) (cache (expire (snd tm) s))"
    by (simp add: Cons.IH)
  also have "\<dots> = filter (\<lambda>p. fst p \<notin> snd ` set (tm # tms)) (cache s)"
    by (simp add: expire_def map_delete_def conj_commute)
  finally show ?case .
qed

lemma map_get_filter_keys:
  "map_get k (filter (\<lambda>p. Q (fst p)) m) = (if Q k then map_get k m else None)"
  by (induction m) auto

lemma cache_elapse:
  "cache (elapse d s) =
   filter (\<lambda>p. fst p \<notin> snd ` set (filter (\<lambda>tm. fst tm \<le> now s + d) (timers s))) (cache s)"
  by (simp add: elapse_def Let_def cache_foldl_expire_filter)

lemma length_evict_oldest: "m \<noteq> [] \<Longrightarrow> length (evict_oldest m) < length m"
  by (cases m) (simp_all add: evict_oldest_def map_keys_def map_delete_def le_imp_less_Suc)

lemma step_size_bound:
  assumes "int (length (cache s)) \<le> size_opt opts"
  shows "int (length (cache (step J opts f e s))) \<le> size_opt opts"
proof (cases e)
  case (Call args)
  show ?thesis
  proof (cases "map_get (createCacheKeyFromArgs J args) (cache s)")
    case None
    let ?m = "cache s @ [(createCacheKeyFromArgs J args, f (invoked s) args)]"
    have "length (evict_oldest ?m) < length ?m" by (rule length_evict_oldest) simp
    then have "int (length (evict_oldest ?m)) \<le> size_opt opts" using assms by simp
    then show ?thesis using Call None by (simp add: memoized_miss Let_def)
  next
    case (Some h)
    then show ?thesis using Call assms by (simp add: memoized_hit)
  qed
next
  case ClearCache
  then show ?thesis using assms by (simp add: clear_cache_def)
next
  case (Elapse d)
  have "length (cache (elapse d s)) \<le> length (cache s)"
    by (simp add: cache_elapse)
  then show ?thesis using Elapse assms by simp
next
  case (Settle h out)
  then show ?thesis using assms by (simp add: settle_def)
qed

lemma run_size_bound:
  "int (length (cache s)) \<le> size_opt opts \<Longrightarrow> int (length (cache (run J opts f es s))) \<le> size_opt opts"
  by (induction es arbitrary: s) (simp_all add: step_size_bound)

lemma step_outcome_settled:
  assumes "outcome s h \<noteq> Pending"
  shows "outcome (step J opts f e s) h = outcome s h"
proof (cases e)
  case (Call args)
  then show ?thesis
    by (cases "map_get (createCacheKeyFromArgs J args) (cache s)")
       (simp_all add: memoized_miss memoized_hit)
next
  case (Settle h' out)
  then show ?thesis using assms by (auto simp: settle_def)
qed (simp_all add: clear_cache_def elapse_def Let_def)

lemma run_outcome_settled:
  "outcome s h \<noteq> Pending \<Longrightarrow> outcome (run J opts f es s) h = outcome s h"
  by (induction es arbitrary: s) (simp_all add: step_outcome_settled)

lemma miss_entry_present:
  assumes "1 \<le> size_opt opts" and "map_get (createCacheKeyFromArgs J args) (cache s) = None"
  shows "map_get (createCacheKeyFromArgs J args) (cache (snd (memoized J opts f args s))) = Some (f (invoked s) args)"
proof (cases "cache s")
  case Nil
  then show ?thesis using assms by (simp add: memoized_miss Let_def)
next
  case (Cons p m)
  with assms(2) have "fst p \<noteq> createCacheKeyFromArgs J args"
    and "map_get (createCacheKeyFromArgs J args) m = None" by (auto split: if_splits)
  then show ?thesis using assms Cons
    by (simp add: memoized_miss Let_def evict_oldest_def map_keys_def
                  map_get_append map_get_delete)
qed

lemma map_get_elapse:
  "map_get k (cache (elapse d s)) =
     (if k \<in> snd ` set (filter (\<lambda>tm. fst tm \<le> now s + d) (timers s)) then None
      else map_get k (cache s))"
proof -
  let ?due = "snd ` set (filter (\<lambda>tm. fst tm \<le> now s + d) (timers s))"
  have "map_get k (cache (elapse d s)) = (if k \<notin> ?due then map_get k (cache s) else None)"
    unfolding cache_elapse by (rule map_get_filter_keys [where Q = "\<lambda>x. x \<notin> ?due"])
  then show ?thesis by simp
qed

section \<open>Events that remove an entry\<close>

lemma removes_absent:
  assumes "removes J opts k e s"
  shows "map_get k (cache (step J opts f e s)) = None"
proof (cases e)
  case (Call args)
  let ?k' = "createCacheKeyFromArgs J args"
  from assms Call have miss: "map_get ?k' (cache s) = None"
    and big: "int (length (cache s)) + 1 > size_opt opts"
    and old: "(case map_keys (cache s) of [] \<Rightarrow> ?k' = k | oldest # rest \<Rightarrow> oldest = k)"
    by (simp_all add: map_size_def)
  show ?thesis
  proof (cases "cache s")
    case Nil
    with old have "?k' = k" by (simp add: map_keys_def)
    then show ?thesis using Call miss big Nil
      by (simp add: memoized_miss evict_oldest_def map_keys_def map_delete_def)
  next
    case (Cons p m)
    with old have "fst p = k" by (simp add: map_keys_def)
    then show ?thesis using Call miss big Cons
      by (simp add: memoized_miss evict_oldest_def map_keys_def map_get_delete)
  qed
next
  case ClearCache
  then show ?thesis by (simp add: clear_cache_def)
next
  case (Elapse d)
  with assms have "k \<in> snd ` set (filter (\<lambda>tm. fst tm \<le> now s + d) (timers s))" by force
  then show ?thesis using Elapse by (simp only: step.simps map_get_elapse if_True)
next
  case (Settle h out)
  with assms show ?thesis by simp
qed

lemma not_removes_keeps:
  assumes "map_get k (cache s) = Some h" and "\<not> removes J opts k e s"
  shows "map_get k (cache (step J opts f e s)) = Some h"
proof (cases e)
  case (Call args)
  let ?k' = "createCacheKeyFromArgs J args"
  show ?thesis
  proof (cases "map_get ?k' (cache s)")
    case None
    with assms(1) have ne: "?k' \<noteq> k" by auto
    from assms(1) obtain p m where c: "cache s = p # m" by (cases "cache s") auto
    from assms(2) Call None c
    have keep: "\<not> (int (length (cache s)) + 1 > size_opt opts \<and> fst p = k)"
      by (simp add: map_size_def map_keys_def)
    have app: "map_get k (cache s @ [(?k', f (invoked s) args)]) = Some h"
      using assms(1) by (simp add: map_get_append)
    show ?thesis
    proof (cases "int (length (cache s)) + 1 > size_opt opts")
      case True
      with keep have "fst p \<noteq> k" by simp
      then show ?thesis using Call None True c app
        by (simp add: memoized_miss evict_oldest_def map_keys_def map_get_delete)
    next
      case False
      then show ?thesis using Call None app by (simp add: memoized_miss)
    qed
  next
    case (Some h')
    then show ?thesis using Call assms(1) by (simp add: memoized_hit)
  qed
next
  case ClearCache
  with assms(2) show ?thesis by simp
next
  case (Elapse d)
  with assms(2) have "k \<notin> snd ` set (filter (\<lambda>tm. fst tm \<le> now s + d) (timers s))" by force
  then show ?thesis using Elapse assms(1) by (simp only: step.simps map_get_elapse if_False)
next
  case (Settle h' out)
  then show ?thesis using assms(1) by (simp add: settle_def)
qed

lemma undisturbed_kept:
  "map_get k (cache s) = Some h \<Longrightarrow> undisturbed J opts f k es s \<Longrightarrow> entry_kept J opts f k es s"
proof (induction es arbitrary: s)
  case Nil
  then show ?case by simp
next
  case (Cons e es)
  from Cons.prems have nr: "\<not> removes J opts k e s"
    and rest: "undisturbed J opts f k es (step J opts f e s)" by simp_all
  from not_removes_keeps [OF Cons.prems(1) nr]
  have "map_get k (cache (step J opts f e s)) = Some h" .
  from Cons.IH [OF this rest] Cons.prems(1) show ?case by simp
qed

lemma first_call_registers:
  assumes "1 \<le> size_opt opts" and "memoized J opts f args s = (h, s1)"
  shows "map_get (createCacheKeyFromArgs J args) (cache s1) = Some h"
proof (cases "map_get (createCacheKeyFromArgs J args) (cache s)")
  case None
  from miss_entry_present [OF assms(1) None, of f] assms(2) None show ?thesis
    by (simp add: memoized_miss)
next
  case (Some h')
  then show ?thesis using assms(2) by (simp add: memoized_hit)
qed

lemma undisturbed_run:
  assumes "1 \<le> size_opt opts" and "memoized J opts f args s = (h, s1)"
    and "undisturbed J opts f (createCacheKeyFromArgs J args) es s1"
  shows "map_get (createCacheKeyFromArgs J args) (cache (run J opts f es s1)) = Some h
       \<and> invoked_for J (createCacheKeyFromArgs J args) (invoked (run J opts f es s1))
           = invoked_for J (createCacheKeyFromArgs J args) (invoked s1)
       \<and> (\<forall>r \<in> set (returned J opts f es s1).
             createCacheKeyFromArgs J (fst r) = createCacheKeyFromArgs J args \<longrightarrow> snd r = h)"
proof -
  note reg = first_call_registers [OF assms(1,2)]
  from kept_run [OF undisturbed_kept [OF reg assms(3)] reg] show ?thesis .
qed

lemma repeated_hits:
  assumes "map_get (createCacheKeyFromArgs J args) (cache s) = Some h"
  shows "run J opts f (replicate n (Call args)) s = s
       \<and> returned J opts f (replicate n (Call args)) s = replicate n (args, h)"
  using assms by (induction n) (simp_all add: memoized_hit)

lemma call_after_removal:
  assumes "removes J opts (createCacheKeyFromArgs J args) e s"
  shows "fst (memoized J opts f args (step J opts f e s)) = f (invoked (step J opts f e s)) args
       \<and> invoked (snd (memoized J opts f args (step J opts f e s)))
           = invoked (step J opts f e s) @ [args]"
  using removes_absent [OF assms, of f] by (simp add: memoized_miss)

lemma run_outcome_pending_settle:
  assumes "outcome (run J opts f es1 s) h = Pending"
  shows "outcome (run J opts f (es1 @ Settle h (Rejected err) # es2) s) h = Rejected err"
proof -
  have "outcome (settle h (Rejected err) (run J opts f es1 s)) h = Rejected err"
    using assms by (simp add: settle_def)
  then show ?thesis by (simp add: run_append run_outcome_settled)
qed


section \<open>Deduplication of calls made while a computation is in flight\<close>

text \<open>
  With room for one entry, \<^verbatim>\<open>g('A')\<close>, \<^verbatim>\<open>g('B')\<close>, \<^verbatim>\<open>g('A')\<close> made one after the other,
  before any promise settles: the entry of the first call is evicted by the second, so
  the third invokes \<^verbatim>\<open>f\<close> on \<^verbatim>\<open>'A'\<close> again and receives another promise. Claim C1 as stated
  (one invocation and one shared promise for all calls with identical arguments made
  before the first settles) fails here.
\<close>

theorem dedup_broken_by_eviction:
  "invoked (run no_objects \<lparr>ttl = 60, size_opt = 1\<rparr> fresh_promise
              [Call [Str ''A''], Call [Str ''B''], Call [Str ''A'']] fresh)
     = [[Str ''A''], [Str ''B''], [Str ''A'']]
   \<and> returned no_objects \<lparr>ttl = 60, size_opt = 1\<rparr> fresh_promise
              [Call [Str ''A''], Call [Str ''B''], Call [Str ''A'']] fresh
     = [([Str ''A''], 0), ([Str ''B''], 1), ([Str ''A''], 2)]
   \<and> outcome (run no_objects \<lparr>ttl = 60, size_opt = 1\<rparr> fresh_promise
              [Call [Str ''A''], Call [Str ''B''], Call [Str ''A'']] fresh) 0 = Pending"
  by (simp add: run_simps no_objects_def fresh_promise_def fresh_def)

text \<open>
  Claim C1, amended. Let the maximum size be at least 1 and let a call miss. Then
  \<^item> \<^verbatim>\<open>f\<close> is invoked exactly once, and every caller receives the promise of that
    invocation, when any number of calls with the same arguments follow the first
    directly;
  \<^item> the same holds of all calls for that key, whatever else happens in between and
    whether or not a promise has settled, as long as no event removes the entry: no call
    evicts it, no timer armed for its key falls due, \<^verbatim>\<open>clear_cache\<close> is not called;
  \<^item> once an event has removed the entry, a call with those arguments invokes \<^verbatim>\<open>f\<close> again
    and receives the promise of the new invocation.
\<close>

theorem dedup_until_entry_removed:
  assumes "1 \<le> size_opt opts"
    and "map_get (createCacheKeyFromArgs J args) (cache s) = None"
    and "memoized J opts f args s = (h, s1)"
  shows "(h = f (invoked s) args
          \<and> invoked (run J opts f (replicate (Suc n) (Call args)) s) = invoked s @ [args]
          \<and> returned J opts f (replicate (Suc n) (Call args)) s = replicate (Suc n) (args, h))
       \<and> (undisturbed J opts f (createCacheKeyFromArgs J args) es s1 \<longrightarrow>
            invoked_for J (createCacheKeyFromArgs J args) (invoked (run J opts f (Call args # es) s))
              = invoked_for J (createCacheKeyFromArgs J args) (invoked s) @ [args]
          \<and> (\<forall>r \<in> set (returned J opts f (Call args # es) s).
                createCacheKeyFromArgs J (fst r) = createCacheKeyFromArgs J args \<longrightarrow> snd r = h))
       \<and> (removes J opts (createCacheKeyFromArgs J args) e (run J opts f es s1) \<longrightarrow>
            fst (memoized J opts f args (step J opts f e (run J opts f es s1)))
              = f (invoked (step J opts f e (run J opts f es s1))) args
          \<and> invoked (snd (memoized J opts f args (step J opts f e (run J opts f es s1))))
              = invoked (step J opts f e (run J opts f es s1)) @ [args])"
proof (intro conjI impI)
  let ?k = "createCacheKeyFromArgs J args"
  from assms(2,3) show h: "h = f (invoked s) args" by (simp add: memoized_miss)
  from assms(2,3) have inv1: "invoked s1 = invoked s @ [args]" by (auto simp: memoized_miss)
  note reg = first_call_registers [OF assms(1,3)]
  note rep = repeated_hits [OF reg, of opts f n]
  from rep inv1 assms(3)
  show "invoked (run J opts f (replicate (Suc n) (Call args)) s) = invoked s @ [args]" by simp
  from rep assms(3)
  show "returned J opts f (replicate (Suc n) (Call args)) s = replicate (Suc n) (args, h)" by simp
  {
    assume und: "undisturbed J opts f ?k es s1"
    note u = undisturbed_run [OF assms(1,3) und]
    from u inv1 assms(3)
    show "invoked_for J ?k (invoked (run J opts f (Call args # es) s))
            = invoked_for J ?k (invoked s) @ [args]"
      by (simp add: invoked_for_def)
    from u assms(3)
    show "\<forall>r \<in> set (returned J opts f (Call args # es) s).
            createCacheKeyFromArgs J (fst r) = ?k \<longrightarrow> snd r = h" by simp
  }
  {
    assume rm: "removes J opts ?k e (run J opts f es s1)"
    note c = call_after_removal [OF rm, of f]
    from c show "fst (memoized J opts f args (step J opts f e (run J opts f es s1)))
              = f (invoked (step J opts f e (run J opts f es s1))) args" by simp
    from c show "invoked (snd (memoized J opts f args (step J opts f e (run J opts f es s1))))
              = invoked (step J opts f e (run J opts f es s1)) @ [args]" by simp
  }
qed

theorem dedup_until_entry_removed_witness:
  "1 \<le> size_opt example_options
   \<and> map_get (createCacheKeyFromArgs no_objects [Num 2]) (cache fresh) = None
   \<and> memoized no_objects example_options fresh_promise [Num 2] fresh = (0, after_first_call)
   \<and> invoked (run no_objects example_options fresh_promise (replicate (Suc 2) (Call [Num 2])) fresh)
       = [[Num 2]]
   \<and> returned no_objects example_options fresh_promise (replicate (Suc 2) (Call [Num 2])) fresh
       = [([Num 2], 0), ([Num 2], 0), ([Num 2], 0)]
   \<and> undisturbed no_objects example_options fresh_promise
        (createCacheKeyFromArgs no_objects [Num 2])
        [Call [Num 2], Call [Num 3], Elapse 500, Call [Num 2]] after_first_call
   \<and> invoked (run no_objects example_options fresh_promise
        [Call [Num 2], Call [Num 2], Call [Num 3], Elapse 500, Call [Num 2]] fresh)
       = [[Num 2], [Num 3]]
   \<and> returned no_objects example_options fresh_promise
        [Call [Num 2], Call [Num 2], Call [Num 3], Elapse 500, Call [Num 2]] fresh
       = [([Num 2], 0), ([Num 2], 0), ([Num 3], 1), ([Num 2], 0)]
   \<and> removes no_objects example_options (createCacheKeyFromArgs no_objects [Num 2])
        (Elapse 59500 :: (nat, string) event)
        (run no_objects example_options fresh_promise
           [Call [Num 2], Call [Num 3], Elapse 500, Call [Num 2]] after_first_call)
   \<and> fst (memoized no_objects example_options fresh_promise [Num 2]
        (step no_objects example_options fresh_promise (Elapse 59500)
          (run no_objects example_options fresh_promise
             [Call [Num 2], Call [Num 3], Elapse 500, Call [Num 2]] after_first_call))) = 2
   \<and> invoked (snd (memoized no_objects example_options fresh_promise [Num 2]
        (step no_objects example_options fresh_promise (Elapse 59500)
          (run no_objects example_options fresh_promise
             [Call [Num 2], Call [Num 3], Elapse 500, Call [Num 2]] after_first_call))))
       = [[Num 2], [Num 3], [Num 2]]"
  using dedup_until_entry_removed [where J = no_objects and opts = example_options
          and f = fresh_promise and args = "[Num 2]" and s = fresh and h = 0
          and ?s1.0 = after_first_call and n = 2
          and es = "[Call [Num 2], Call [Num 3], Elapse 500, Call [Num 2]]"
          and e = "Elapse 59500"]
  by (simp add: run_simps no_objects_def fresh_promise_def example_options_def fresh_def
        after_first_call_def nat_text_digit numeral_2_eq_2)

section \<open>A second call while the entry is cached\<close>



section \<open>Keys of distinct argument tuples\<close>

text \<open>
  Claim C3 asks that distinct argument tuples get distinct keys and that the delimiter
  cannot make two tuples collide. The encoder puts the text of an argument between two
  underscores without escaping it: the pairs \<^verbatim>\<open>('a__', 'b')\<close> and \<^verbatim>\<open>('a', '__b')\<close>, both two
  strings, get the one key \<^verbatim>\<open>_a____b_\<close>.
\<close>

theorem delimiter_collision:
  "[Str ''a__'', Str ''b''] \<noteq> [Str ''a'', Str ''__b'']
   \<and> createCacheKeyFromArgs J [Str ''a__'', Str ''b''] = ''_a____b_''
   \<and> createCacheKeyFromArgs J [Str ''a'', Str ''__b''] = ''_a____b_''"
  by (simp add: createCacheKeyFromArgs_def)

text \<open>
  Claim C4 asks that \<^verbatim>\<open>undefined\<close> be encoded apart from every real value. The template
  literal prints it as the text \<^verbatim>\<open>undefined\<close>: at every position of every tuple, the key
  with \<^verbatim>\<open>undefined\<close> there is the key with the string \<^verbatim>\<open>'undefined'\<close> there.
\<close>

theorem undefined_collides_with_its_name:
  "Undefined \<noteq> Str ''undefined''
   \<and> createCacheKeyFromArgs J (pre @ Undefined # post)
     = createCacheKeyFromArgs J (pre @ Str ''undefined'' # post)"
  by (simp add: createCacheKeyFromArgs_concat)

section \<open>Eviction\<close>

text \<open>
  Claim C5: with \<^verbatim>\<open>size = 2\<close> and an empty store, three argument tuples with three distinct
  keys A, B, C are inserted in that order, with any number of hits on A after the first
  insertion and on A or B after the second. Before C is inserted the store holds A and B;
  inserting C evicts A, and B and C remain, in that order.
\<close>

theorem eviction_by_insertion_order:
  assumes sz: "size_opt opts = 2" and empty: "cache s = []"
    and ab: "createCacheKeyFromArgs J a \<noteq> createCacheKeyFromArgs J b"
    and ac: "createCacheKeyFromArgs J a \<noteq> createCacheKeyFromArgs J c"
    and bc: "createCacheKeyFromArgs J b \<noteq> createCacheKeyFromArgs J c"
    and h1: "\<forall>x \<in> set hs1. createCacheKeyFromArgs J x = createCacheKeyFromArgs J a"
    and h2: "\<forall>x \<in> set hs2. createCacheKeyFromArgs J x = createCacheKeyFromArgs J a
                          \<or> createCacheKeyFromArgs J x = createCacheKeyFromArgs J b"
  shows "map_keys (cache (run J opts f (Call a # map Call hs1 @ Call b # map Call hs2) s))
           = [createCacheKeyFromArgs J a, createCacheKeyFromArgs J b]
       \<and> map_keys (cache (run J opts f (Call a # map Call hs1 @ Call b # map Call hs2 @ [Call c]) s))
           = [createCacheKeyFromArgs J b, createCacheKeyFromArgs J c]"
proof -
  let ?ka = "createCacheKeyFromArgs J a" and ?kb = "createCacheKeyFromArgs J b"
  let ?kc = "createCacheKeyFromArgs J c"
  define s1 where "s1 = step J opts f (Call a) s"
  define s2 where "s2 = step J opts f (Call b) s1"
  define s3 where "s3 = step J opts f (Call c) s2"
  have c1: "cache s1 = [(?ka, f (invoked s) a)]"
    using sz empty by (simp add: s1_def memoized_miss)
  have r1: "run J opts f (map Call hs1) s1 = s1"
    using h1 c1 by (intro hits_noop) simp
  have c2: "cache s2 = [(?ka, f (invoked s) a), (?kb, f (invoked s1) b)]"
    using sz c1 ab by (simp add: s2_def memoized_miss)
  have r2: "run J opts f (map Call hs2) s2 = s2"
    using h2 c2 ab by (intro hits_noop) auto
  have c3: "cache s3 = [(?kb, f (invoked s1) b), (?kc, f (invoked s2) c)]"
    using sz c2 ab ac bc
    by (simp add: s3_def memoized_miss evict_oldest_def map_keys_def map_delete_def)
  have "run J opts f (Call a # map Call hs1 @ Call b # map Call hs2) s = s2"
    using r1 r2 by (simp add: run_append s1_def s2_def)
  moreover have "run J opts f (Call a # map Call hs1 @ Call b # map Call hs2 @ [Call c]) s = s3"
    using r1 r2 by (simp add: run_append s1_def s2_def s3_def)
  ultimately show ?thesis using c2 c3 by (simp add: map_keys_def)
qed

theorem eviction_by_insertion_order_witness:
  "size_opt \<lparr>ttl = 60, size_opt = 2\<rparr> = 2 \<and> cache fresh = []
   \<and> createCacheKeyFromArgs no_objects [Str ''A''] \<noteq> createCacheKeyFromArgs no_objects [Str ''B'']
   \<and> createCacheKeyFromArgs no_objects [Str ''A''] \<noteq> createCacheKeyFromArgs no_objects [Str ''C'']
   \<and> createCacheKeyFromArgs no_objects [Str ''B''] \<noteq> createCacheKeyFromArgs no_objects [Str ''C'']
   \<and> map_keys (cache (run no_objects \<lparr>ttl = 60, size_opt = 2\<rparr> fresh_promise
        (Call [Str ''A''] # map Call [[Str ''A''], [Str ''A'']] @ Call [Str ''B'']
           # map Call [[Str ''B''], [Str ''A''], [Str ''A'']]) fresh)) = [''_A_'', ''_B_'']
   \<and> map_keys (cache (run no_objects \<lparr>ttl = 60, size_opt = 2\<rparr> fresh_promise
        (Call [Str ''A''] # map Call [[Str ''A''], [Str ''A'']] @ Call [Str ''B'']
           # map Call [[Str ''B''], [Str ''A''], [Str ''A'']] @ [Call [Str ''C'']]) fresh))
       = [''_B_'', ''_C_'']"
  using eviction_by_insertion_order [of "\<lparr>ttl = 60, size_opt = 2\<rparr>" fresh no_objects
          "[Str ''A'']" "[Str ''B'']" "[Str ''C'']" "[[Str ''A''], [Str ''A'']]"
          "[[Str ''B''], [Str ''A''], [Str ''A'']]" fresh_promise]
  by (simp add: run_simps no_objects_def fresh_promise_def fresh_def)

text \<open>
  Claim C6: with a maximum size of at least 1, after every run from the state
  \<^verbatim>\<open>memoize_async\<close> starts from (so after every call, once its eviction step is done, and
  after every other event) the store holds no more entries than the maximum.
\<close>

theorem store_size_bounded:
  assumes "1 \<le> size_opt opts"
  shows "int (cache_size (run J opts f es (memoize_async :: ('h, 'v) state))) \<le> size_opt opts"
proof -
  have "int (length (cache (memoize_async :: ('h, 'v) state))) \<le> size_opt opts"
    using assms by (simp add: memoize_async_def)
  then show ?thesis by (simp add: cache_size_def map_size_def run_size_bound)
qed

theorem store_size_bounded_witness:
  "(1::int) \<le> size_opt \<lparr>ttl = 60, size_opt = 2\<rparr>
   \<and> cache_size (run no_objects \<lparr>ttl = 60, size_opt = 2\<rparr> fresh_promise
        [Call [Num 1], Call [Num 2], Call [Num 3], Elapse 1000, Call [Num 4]] fresh) = 2
   \<and> int (cache_size (run no_objects \<lparr>ttl = 60, size_opt = 2\<rparr> fresh_promise
        [Call [Num 1], Call [Num 2], Call [Num 3], Elapse 1000, Call [Num 4]]
        (memoize_async :: (nat, string) state))) \<le> size_opt \<lparr>ttl = 60, size_opt = 2\<rparr>"
  using store_size_bounded [where ?'h = nat and ?'v = string,
          of "\<lparr>ttl = 60, size_opt = 2\<rparr>" no_objects fresh_promise
          "[Call [Num 1], Call [Num 2], Call [Num 3], Elapse 1000, Call [Num 4]]"]
  by (simp add: run_simps no_objects_def fresh_promise_def fresh_def nat_text_digit)

section \<open>Clearing the cache and the timers armed before\<close>

text \<open>
  \<^verbatim>\<open>get_user(2)\<close> at time 0, \<^verbatim>\<open>clear_cache()\<close> and \<^verbatim>\<open>get_user(2)\<close> again 59 seconds later:
  the store is empty after the clear and the new call makes a new entry, whose own timer
  is due at 119 seconds. The timer armed by the first call is still pending; it fires
  at 60 seconds and removes the new entry. Claim C7 as stated (\<^verbatim>\<open>clear_cache\<close> cancels
  the timers, and no timer armed before the clear removes a new entry under the same key)
  fails here.
\<close>

theorem stale_timer_after_clear:
  "cache_size (run no_objects example_options fresh_promise
       [Call [Num 2], Elapse 59000, ClearCache] fresh) = 0
   \<and> cache (run no_objects example_options fresh_promise
       [Call [Num 2], Elapse 59000, ClearCache, Call [Num 2]] fresh) = [(''_2_'', 1)]
   \<and> timers (run no_objects example_options fresh_promise
       [Call [Num 2], Elapse 59000, ClearCache, Call [Num 2]] fresh)
       = [(60000, ''_2_''), (119000, ''_2_'')]
   \<and> cache (run no_objects example_options fresh_promise
       [Call [Num 2], Elapse 59000, ClearCache, Call [Num 2], Elapse 1000] fresh) = []
   \<and> now (run no_objects example_options fresh_promise
       [Call [Num 2], Elapse 59000, ClearCache, Call [Num 2], Elapse 1000] fresh) = 60000"
  by (simp add: run_simps no_objects_def fresh_promise_def example_options_def fresh_def
        nat_text_digit)

text \<open>
  Claim C7, amended: \<^verbatim>\<open>clear_cache\<close> empties the store and cancels no timer. After
  \<^verbatim>\<open>clear_cache()\<close>, \<^verbatim>\<open>cache_size()\<close> is 0, the pending timers are the ones pending before,
  and a call, for a key cached before or not, invokes \<^verbatim>\<open>f\<close> and returns the promise of
  that invocation.
\<close>

theorem clear_cache_keeps_timers:
  "cache_size (clear_cache s) = 0
   \<and> timers (clear_cache s) = timers s
   \<and> fst (memoized J opts f args (clear_cache s)) = f (invoked s) args
   \<and> invoked (snd (memoized J opts f args (clear_cache s))) = invoked s @ [args]"
  by (simp add: memoized_miss clear_cache_def cache_size_def map_size_def)

section \<open>What a timer removes when it fires\<close>

text \<open>
  With room for one entry: \<^verbatim>\<open>g('a')\<close> at time 0 stores promise 0 under \<^verbatim>\<open>_a_\<close>; \<^verbatim>\<open>g('b')\<close>
  evicts it; \<^verbatim>\<open>g('a')\<close> at 59 seconds stores promise 2 under \<^verbatim>\<open>_a_\<close>. At 60 seconds the timer
  armed for the first entry fires and removes the second one. Claim C8 as stated (the
  timer removes the entry only if it is the one it was armed for) fails here.
\<close>

theorem stale_timer_deletes_new_entry:
  "cache (run no_objects \<lparr>ttl = 60, size_opt = 1\<rparr> fresh_promise
       [Call [Str ''a'']] fresh) = [(''_a_'', 0)]
   \<and> cache (run no_objects \<lparr>ttl = 60, size_opt = 1\<rparr> fresh_promise
       [Call [Str ''a''], Call [Str ''b''], Elapse 59000, Call [Str ''a'']] fresh) = [(''_a_'', 2)]
   \<and> timers (run no_objects \<lparr>ttl = 60, size_opt = 1\<rparr> fresh_promise
       [Call [Str ''a''], Call [Str ''b''], Elapse 59000, Call [Str ''a'']] fresh)
       = [(60000, ''_a_''), (60000, ''_b_''), (119000, ''_a_'')]
   \<and> cache (run no_objects \<lparr>ttl = 60, size_opt = 1\<rparr> fresh_promise
       [Call [Str ''a''], Call [Str ''b''], Elapse 59000, Call [Str ''a''], Elapse 1000] fresh) = []"
  by (simp add: run_simps no_objects_def fresh_promise_def fresh_def)

text \<open>
  Claim C8, amended: when the timers due within a lapse of time fire, the store has no
  entry left under the key of any of them, whichever entry was there, the one the timer
  was armed for or a later one; the entry under any other key is as it was.
\<close>

theorem timer_deletes_by_key:
  "map_get k (cache (elapse d s)) =
     (if \<exists>tm \<in> set (timers s). fst tm \<le> now s + d \<and> snd tm = k then None
      else map_get k (cache s))"
proof -
  have "k \<in> snd ` set (filter (\<lambda>tm. fst tm \<le> now s + d) (timers s))
          \<longleftrightarrow> (\<exists>tm \<in> set (timers s). fst tm \<le> now s + d \<and> snd tm = k)"
    by auto
  then show ?thesis by (simp only: map_get_elapse)
qed

text \<open>
  After \<^verbatim>\<open>g('a')\<close>, \<^verbatim>\<open>clear_cache()\<close>, and \<^verbatim>\<open>g('a')\<close>, \<^verbatim>\<open>g('b')\<close> at 59 seconds, one more second
  removes the entry under \<^verbatim>\<open>_a_\<close> and keeps the one under \<^verbatim>\<open>_b_\<close>.
\<close>

theorem timer_deletes_by_key_witness:
  "cache (run no_objects example_options fresh_promise
       [Call [Str ''a''], ClearCache, Elapse 59000, Call [Str ''a''], Call [Str ''b'']] fresh)
     = [(''_a_'', 1), (''_b_'', 2)]
   \<and> (\<exists>tm \<in> set (timers (run no_objects example_options fresh_promise
         [Call [Str ''a''], ClearCache, Elapse 59000, Call [Str ''a''], Call [Str ''b'']] fresh)).
         fst tm \<le> 59000 + 1000 \<and> snd tm = ''_a_'')
   \<and> \<not> (\<exists>tm \<in> set (timers (run no_objects example_options fresh_promise
         [Call [Str ''a''], ClearCache, Elapse 59000, Call [Str ''a''], Call [Str ''b'']] fresh)).
         fst tm \<le> 59000 + 1000 \<and> snd tm = ''_b_'')
   \<and> map_get ''_a_'' (cache (elapse 1000 (run no_objects example_options fresh_promise
       [Call [Str ''a''], ClearCache, Elapse 59000, Call [Str ''a''], Call [Str ''b'']] fresh)))
     = None
   \<and> map_get ''_b_'' (cache (elapse 1000 (run no_objects example_options fresh_promise
       [Call [Str ''a''], ClearCache, Elapse 59000, Call [Str ''a''], Call [Str ''b'']] fresh)))
     = Some 2"
  using timer_deletes_by_key [of "''_a_''" 1000 "run no_objects example_options fresh_promise
       [Call [Str ''a''], ClearCache, Elapse 59000, Call [Str ''a''], Call [Str ''b'']] fresh"]
    timer_deletes_by_key [of "''_b_''" 1000 "run no_objects example_options fresh_promise
       [Call [Str ''a''], ClearCache, Elapse 59000, Call [Str ''a''], Call [Str ''b'']] fresh"]
  by (simp add: run_simps no_objects_def fresh_promise_def example_options_def fresh_def)

section \<open>Failed computations\<close>

text \<open>
  Claim C9: with a maximum size of at least 1, let a call miss, so that \<^verbatim>\<open>f\<close> is invoked and
  its promise stored, and let that promise, still pending after some events, be rejected.
  As long as no event removes the entry, before the rejection or after it, every call for
  the key returns that promise, which stays rejected with the same reason, \<^verbatim>\<open>f\<close> is not
  invoked for the key again, and a further call changes nothing. Once an event has removed
  the entry (eviction, expiry or clearing), a call with those arguments invokes \<^verbatim>\<open>f\<close>
  again.
\<close>

theorem failure_cached_until_removed:
  assumes "1 \<le> size_opt opts"
    and "map_get (createCacheKeyFromArgs J args) (cache s) = None"
    and "memoized J opts f args s = (h, s1)"
    and "outcome (run J opts f es1 s1) h = Pending"
  shows "(undisturbed J opts f (createCacheKeyFromArgs J args)
            (es1 @ Settle h (Rejected err) # es2) s1 \<longrightarrow>
            memoized J opts f args (run J opts f (es1 @ Settle h (Rejected err) # es2) s1)
              = (h, run J opts f (es1 @ Settle h (Rejected err) # es2) s1)
          \<and> outcome (run J opts f (es1 @ Settle h (Rejected err) # es2) s1) h = Rejected err
          \<and> invoked_for J (createCacheKeyFromArgs J args)
                (invoked (run J opts f (es1 @ Settle h (Rejected err) # es2) s1))
              = invoked_for J (createCacheKeyFromArgs J args) (invoked s) @ [args]
          \<and> (\<forall>r \<in> set (returned J opts f (es1 @ Settle h (Rejected err) # es2) s1).
                createCacheKeyFromArgs J (fst r) = createCacheKeyFromArgs J args \<longrightarrow> snd r = h))
       \<and> (removes J opts (createCacheKeyFromArgs J args) e
            (run J opts f (es1 @ Settle h (Rejected err) # es2) s1) \<longrightarrow>
            fst (memoized J opts f args
                  (step J opts f e (run J opts f (es1 @ Settle h (Rejected err) # es2) s1)))
              = f (invoked (step J opts f e (run J opts f (es1 @ Settle h (Rejected err) # es2) s1)))
                  args
          \<and> invoked (snd (memoized J opts f args
                  (step J opts f e (run J opts f (es1 @ Settle h (Rejected err) # es2) s1))))
              = invoked (step J opts f e (run J opts f (es1 @ Settle h (Rejected err) # es2) s1))
                @ [args])"
proof (intro conjI impI)
  let ?k = "createCacheKeyFromArgs J args"
  let ?es = "es1 @ Settle h (Rejected err) # es2"
  from assms(2,3) have inv1: "invoked s1 = invoked s @ [args]" by (auto simp: memoized_miss)
  show "outcome (run J opts f ?es s1) h = Rejected err"
    if "undisturbed J opts f ?k ?es s1"
    using assms(4) by (rule run_outcome_pending_settle)
  {
    assume und: "undisturbed J opts f ?k ?es s1"
    note u = undisturbed_run [OF assms(1,3) und]
    from u show "memoized J opts f args (run J opts f ?es s1) = (h, run J opts f ?es s1)"
      by (simp add: memoized_hit)
    from u inv1
    show "invoked_for J ?k (invoked (run J opts f ?es s1)) = invoked_for J ?k (invoked s) @ [args]"
      by (simp add: invoked_for_def)
    from u show "\<forall>r \<in> set (returned J opts f ?es s1).
                   createCacheKeyFromArgs J (fst r) = ?k \<longrightarrow> snd r = h" by simp
  }
  {
    assume rm: "removes J opts ?k e (run J opts f ?es s1)"
    note c = call_after_removal [OF rm, of f]
    from c show "fst (memoized J opts f args (step J opts f e (run J opts f ?es s1)))
              = f (invoked (step J opts f e (run J opts f ?es s1))) args" by simp
    from c show "invoked (snd (memoized J opts f args (step J opts f e (run J opts f ?es s1))))
              = invoked (step J opts f e (run J opts f ?es s1)) @ [args]" by simp
  }
qed

theorem failure_cached_until_removed_witness:
  "1 \<le> size_opt example_options
   \<and> map_get (createCacheKeyFromArgs no_objects [Num 2]) (cache fresh) = None
   \<and> memoized no_objects example_options fresh_promise [Num 2] fresh = (0, after_first_call)
   \<and> outcome (run no_objects example_options fresh_promise [Elapse 5000, Call [Num 2]]
        after_first_call) 0 = Pending
   \<and> undisturbed no_objects example_options fresh_promise
        (createCacheKeyFromArgs no_objects [Num 2])
        ([Elapse 5000, Call [Num 2]] @ Settle 0 (Rejected ''no such user'')
           # [Elapse 10000, Call [Num 2], Settle 0 (Fulfilled ''late'')]) after_first_call
   \<and> fst (memoized no_objects example_options fresh_promise [Num 2]
        (run no_objects example_options fresh_promise
          ([Elapse 5000, Call [Num 2]] @ Settle 0 (Rejected ''no such user'')
             # [Elapse 10000, Call [Num 2], Settle 0 (Fulfilled ''late'')]) after_first_call)) = 0
   \<and> outcome (run no_objects example_options fresh_promise
          ([Elapse 5000, Call [Num 2]] @ Settle 0 (Rejected ''no such user'')
             # [Elapse 10000, Call [Num 2], Settle 0 (Fulfilled ''late'')]) after_first_call) 0
       = Rejected ''no such user''
   \<and> invoked (snd (memoized no_objects example_options fresh_promise [Num 2]
        (run no_objects example_options fresh_promise
          ([Elapse 5000, Call [Num 2]] @ Settle 0 (Rejected ''no such user'')
             # [Elapse 10000, Call [Num 2], Settle 0 (Fulfilled ''late'')]) after_first_call)))
       = [[Num 2]]
   \<and> returned no_objects example_options fresh_promise
          ([Elapse 5000, Call [Num 2]] @ Settle 0 (Rejected ''no such user'')
             # [Elapse 10000, Call [Num 2], Settle 0 (Fulfilled ''late'')]) after_first_call
       = [([Num 2], 0), ([Num 2], 0)]
   \<and> removes no_objects example_options (createCacheKeyFromArgs no_objects [Num 2])
        (Elapse 45000 :: (nat, string) event)
        (run no_objects example_options fresh_promise
          ([Elapse 5000, Call [Num 2]] @ Settle 0 (Rejected ''no such user'')
             # [Elapse 10000, Call [Num 2], Settle 0 (Fulfilled ''late'')]) after_first_call)
   \<and> fst (memoized no_objects example_options fresh_promise [Num 2]
        (step no_objects example_options fresh_promise (Elapse 45000)
          (run no_objects example_options fresh_promise
            ([Elapse 5000, Call [Num 2]] @ Settle 0 (Rejected ''no such user'')
               # [Elapse 10000, Call [Num 2], Settle 0 (Fulfilled ''late'')]) after_first_call)))
       = 1
   \<and> invoked (snd (memoized no_objects example_options fresh_promise [Num 2]
        (step no_objects example_options fresh_promise (Elapse 45000)
          (run no_objects example_options fresh_promise
            ([Elapse 5000, Call [Num 2]] @ Settle 0 (Rejected ''no such user'')
               # [Elapse 10000, Call [Num 2], Settle 0 (Fulfilled ''late'')]) after_first_call))))
       = [[Num 2], [Num 2]]"
  using failure_cached_until_removed [where J = no_objects and opts = example_options
          and f = fresh_promise and args = "[Num 2]" and s = fresh and h = 0
          and ?s1.0 = after_first_call and ?es1.0 = "[Elapse 5000, Call [Num 2]]"
          and err = "''no such user''"
          and ?es2.0 = "[Elapse 10000, Call [Num 2], Settle 0 (Fulfilled ''late'')]"
          and e = "Elapse 45000"]
  by (simp add: run_simps no_objects_def fresh_promise_def example_options_def fresh_def
        after_first_call_def nat_text_digit)

section \<open>A cache hit\<close>

text \<open>
  Claim C10: a call whose key is in the store returns the promise stored under it and
  leaves the whole state as it is: the entries and their order, the number of entries,
  the pending timers, the invocations of \<^verbatim>\<open>f\<close>.
\<close>

theorem cache_hit_changes_nothing:
  assumes "map_get (createCacheKeyFromArgs J args) (cache s) = Some h"
  shows "memoized J opts f args s = (h, s)
       \<and> cache (snd (memoized J opts f args s)) = cache s
       \<and> cache_size (snd (memoized J opts f args s)) = cache_size s
       \<and> timers (snd (memoized J opts f args s)) = timers s
       \<and> invoked (snd (memoized J opts f args s)) = invoked s"
  using assms by (simp add: memoized_hit)

theorem cache_hit_changes_nothing_witness:
  "map_get (createCacheKeyFromArgs no_objects [Num 2]) (cache failed_state) = Some 0
   \<and> memoized no_objects \<lparr>ttl = 60, size_opt = 0\<rparr> fresh_promise [Num 2] failed_state
       = (0, failed_state)
   \<and> cache_size (snd (memoized no_objects \<lparr>ttl = 60, size_opt = 0\<rparr> fresh_promise [Num 2]
        failed_state)) = 1
   \<and> timers (snd (memoized no_objects \<lparr>ttl = 60, size_opt = 0\<rparr> fresh_promise [Num 2]
        failed_state)) = [(60000, ''_2_'')]"
  using cache_hit_changes_nothing [of no_objects "[Num 2]" failed_state 0
          "\<lparr>ttl = 60, size_opt = 0\<rparr>" fresh_promise]
  by (simp add: run_simps no_objects_def fresh_promise_def failed_state_def nat_text_digit)

end
